theory Spec2Isabelle
  imports Complex_Main
begin

section \<open>The missile simulation of engine.cpp\<close>

text \<open>
  The simulation core of \<^verbatim>\<open>src/engine.cpp\<close>: the two entity classes, the update,
  collision and compaction passes of \<^verbatim>\<open>updateEntities\<close>, \<^verbatim>\<open>launchMissile\<close>, \<^verbatim>\<open>detectionTask\<close>
  and the two places of \<^verbatim>\<open>main\<close> that create entities (the spawn block and the SPACE key).
  Drawing, the Allegro event queue and the mutex are left out.

  Conventions of the embedding:
  \<^item> a C++ \<^verbatim>\<open>float\<close> is a \<^typ>\<open>real\<close>: arithmetic is exact, rounding, infinities and NaN are
    not modelled; \<^verbatim>\<open>std::sqrt\<close> is \<^const>\<open>sqrt\<close>;
  \<^item> an object created by \<^verbatim>\<open>std::make_shared\<close> has an address (a natural number, never
    handed out twice); a \<^verbatim>\<open>std::shared_ptr\<close> is that address, a \<^verbatim>\<open>std::weak_ptr\<close> is an
    optional address (\<open>None\<close> after \<^verbatim>\<open>reset()\<close>);
  \<^item> targets live in an explicit store, since missiles reach and change them through
    their weak pointers; a target whose only owner, its slot in \<^verbatim>\<open>enemyTargets\<close>, is
    erased is destroyed: it leaves the store, and \<^verbatim>\<open>lock()\<close> on its address finds nothing;
  \<^item> missiles are reached through \<^verbatim>\<open>defenseMissiles\<close> only, so each slot of that vector
    is the pair of the missile's address and the missile;
  \<^item> \<^verbatim>\<open>int\<close> is 32 bits wide; incrementing \<^verbatim>\<open>INT_MAX\<close> is undefined behaviour in C++ and is
    an error value of the model.
\<close>

subsection \<open>Constants\<close>

definition SCREEN_WIDTH :: real where
  "SCREEN_WIDTH = 800"

definition SCREEN_HEIGHT :: real where
  "SCREEN_HEIGHT = 600"

definition INT_MAX :: int where
  "INT_MAX = 2147483647"

type_synonym addr = nat

datatype error = SignedOverflow | DivisionByZero

subsection \<open>EnemyTarget\<close>

record EnemyTarget =
  t_x :: real
  t_y :: real
  t_speedX :: real
  t_speedY :: real
  t_isActive :: bool
  t_id :: int

text \<open>
  The constructor takes the static counter \<^verbatim>\<open>nextID\<close> and gives it back incremented:
  \<^verbatim>\<open>id(nextID++)\<close>.
\<close>

definition EnemyTarget_new ::
    "real \<Rightarrow> real \<Rightarrow> real \<Rightarrow> real \<Rightarrow> int \<Rightarrow> error + (EnemyTarget \<times> int)" where
  "EnemyTarget_new px py sx sy nextID =
     (if nextID = INT_MAX then Inl SignedOverflow
      else Inr (\<lparr>t_x = px, t_y = py, t_speedX = sx, t_speedY = sy,
                  t_isActive = True, t_id = nextID\<rparr>, nextID + 1))"

definition EnemyTarget_update :: "EnemyTarget \<Rightarrow> real \<Rightarrow> EnemyTarget" where
  "EnemyTarget_update t deltaTime =
     (let x' = t_x t + t_speedX t * deltaTime;
          y' = t_y t + t_speedY t * deltaTime
      in t\<lparr>t_x := x', t_y := y',
            t_isActive :=
              (if x' > SCREEN_WIDTH \<or> y' < 0 \<or> y' > SCREEN_HEIGHT then False
               else t_isActive t)\<rparr>)"

definition EnemyTarget_setInactive :: "EnemyTarget \<Rightarrow> EnemyTarget" where
  "EnemyTarget_setInactive t = t\<lparr>t_isActive := False\<rparr>"

subsection \<open>DefenseMissile\<close>

type_synonym target_store = "addr \<Rightarrow> EnemyTarget option"

record DefenseMissile =
  m_x :: real
  m_y :: real
  m_speed :: real
  m_velocityX :: real
  m_velocityY :: real
  m_isActive :: bool
  m_target :: "addr option"

text \<open>\<^verbatim>\<open>target.lock()\<close>: the target, when the weak pointer is set and its target still exists.\<close>

definition lock :: "target_store \<Rightarrow> addr option \<Rightarrow> (addr \<times> EnemyTarget) option" where
  "lock h wp =
     (case wp of
        None \<Rightarrow> None
      | Some a \<Rightarrow> (case h a of None \<Rightarrow> None | Some t \<Rightarrow> Some (a, t)))"

definition updateVelocity :: "target_store \<Rightarrow> DefenseMissile \<Rightarrow> DefenseMissile" where
  "updateVelocity h m =
     (case lock h (m_target m) of
        None \<Rightarrow> m
      | Some (a, sharedTarget) \<Rightarrow>
          (let dx = t_x sharedTarget - m_x m;
               dy = t_y sharedTarget - m_y m;
               distance = sqrt (dx * dx + dy * dy)
           in if distance > 0.01
              then m\<lparr>m_velocityX := (dx / distance) * m_speed m,
                      m_velocityY := (dy / distance) * m_speed m\<rparr>
              else m))"



text \<open>The constructor: velocity zero, active, then \<^verbatim>\<open>updateVelocity()\<close>.\<close>

definition DefenseMissile_new ::
    "target_store \<Rightarrow> real \<Rightarrow> real \<Rightarrow> addr \<Rightarrow> real \<Rightarrow> DefenseMissile" where
  "DefenseMissile_new h px py target speed =
     updateVelocity h
       \<lparr>m_x = px, m_y = py, m_speed = speed, m_velocityX = 0, m_velocityY = 0,
        m_isActive = True, m_target = Some target\<rparr>"

definition DefenseMissile_update ::
    "target_store \<Rightarrow> DefenseMissile \<Rightarrow> real \<Rightarrow> DefenseMissile" where
  "DefenseMissile_update h m deltaTime =
     (let m1 = (case lock h (m_target m) of
                  None \<Rightarrow> m
                | Some (a, sharedTarget) \<Rightarrow>
                    if t_isActive sharedTarget then updateVelocity h m
                    else m\<lparr>m_target := None\<rparr>);
          x' = m_x m1 + m_velocityX m1 * deltaTime;
          y' = m_y m1 + m_velocityY m1 * deltaTime
      in m1\<lparr>m_x := x', m_y := y',
             m_isActive :=
               (if x' < 0 \<or> x' > SCREEN_WIDTH \<or> y' < 0 \<or> y' > SCREEN_HEIGHT then False
                else m_isActive m1)\<rparr>)"

definition DefenseMissile_setInactive :: "DefenseMissile \<Rightarrow> DefenseMissile" where
  "DefenseMissile_setInactive m = m\<lparr>m_isActive := False\<rparr>"

subsection \<open>The world: the globals of the program\<close>

record world =
  enemyTargets :: "addr list"
  targets :: target_store
  defenseMissiles :: "(addr \<times> DefenseMissile) list"
  nextID :: int
  nextAddr :: addr

definition initial :: world where
  "initial = \<lparr>enemyTargets = [], targets = Map.empty, defenseMissiles = [],
               nextID = 0, nextAddr = 0\<rparr>"

text \<open>
  The spawn block of \<^verbatim>\<open>main\<close>; \<open>r1\<close> and \<open>r2\<close> are what the two calls of \<^verbatim>\<open>std::rand()\<close>
  return. The new target is returned beside the world.
\<close>

definition spawnTarget :: "nat \<Rightarrow> nat \<Rightarrow> world \<Rightarrow> error + (EnemyTarget \<times> world)" where
  "spawnTarget r1 r2 w =
     (let startX = 0;
          startY = real (r1 mod 600);
          speedX = 50 + real (r2 mod 50);
          speedY = 0
      in case EnemyTarget_new startX startY speedX speedY (nextID w) of
           Inl e \<Rightarrow> Inl e
         | Inr (t, n) \<Rightarrow>
             Inr (t, w\<lparr>enemyTargets := enemyTargets w @ [nextAddr w],
                        targets := (targets w)(nextAddr w \<mapsto> t),
                        nextID := n,
                        nextAddr := Suc (nextAddr w)\<rparr>))"

definition launchMissile :: "real \<Rightarrow> real \<Rightarrow> addr \<Rightarrow> world \<Rightarrow> world" where
  "launchMissile startX startY target w =
     (let missileSpeed = 200
      in w\<lparr>defenseMissiles :=
              defenseMissiles w @
                [(nextAddr w, DefenseMissile_new (targets w) startX startY target missileSpeed)],
            nextAddr := Suc (nextAddr w)\<rparr>)"

text \<open>
  The loop of \<^verbatim>\<open>detectionTask\<close> over the slots of \<^verbatim>\<open>enemyTargets\<close> still to visit; a launch
  is the \<^verbatim>\<open>break\<close>. A slot always points to a live target; the model steps over one that
  does not.
\<close>

fun detectionLoop :: "addr list \<Rightarrow> world \<Rightarrow> world" where
  "detectionLoop [] w = w"
| "detectionLoop (a # rest) w =
     (let detectionRange = 500;
          sensorX = SCREEN_WIDTH;
          sensorY = SCREEN_HEIGHT / 2
      in case targets w a of
           None \<Rightarrow> detectionLoop rest w
         | Some target \<Rightarrow>
             (let dx = t_x target - sensorX;
                  dy = t_y target - sensorY;
                  distance = sqrt (dx * dx + dy * dy)
              in if distance \<le> detectionRange then launchMissile sensorX sensorY a w
                 else detectionLoop rest w))"

definition detectionTask :: "world \<Rightarrow> world" where
  "detectionTask w = detectionLoop (enemyTargets w) w"

text \<open>The SPACE key of \<^verbatim>\<open>main\<close>.\<close>

definition keySpace :: "world \<Rightarrow> world" where
  "keySpace w =
     (case enemyTargets w of
        [] \<Rightarrow> w
      | target # _ \<Rightarrow>
          (let missileStartX = SCREEN_WIDTH;
               missileStartY = SCREEN_HEIGHT / 2
           in launchMissile missileStartX missileStartY target w))"

subsection \<open>updateEntities\<close>

text \<open>The first loop: every slot of \<^verbatim>\<open>enemyTargets\<close> in turn, the target updated in the store.\<close>

fun updateTargets :: "real \<Rightarrow> addr list \<Rightarrow> target_store \<Rightarrow> target_store" where
  "updateTargets deltaTime [] h = h"
| "updateTargets deltaTime (a # rest) h =
     updateTargets deltaTime rest
       (case h a of None \<Rightarrow> h | Some t \<Rightarrow> h(a \<mapsto> EnemyTarget_update t deltaTime))"

text \<open>The second loop; a missile's update reads the targets and changes the missile only.\<close>

definition updateMissiles ::
    "real \<Rightarrow> target_store \<Rightarrow> (addr \<times> DefenseMissile) list \<Rightarrow> (addr \<times> DefenseMissile) list" where
  "updateMissiles deltaTime h ms = map (\<lambda>(p, m). (p, DefenseMissile_update h m deltaTime)) ms"

text \<open>
  The collision loop over the missiles still to visit, with the store as the missiles
  before them have left it.
\<close>

fun collisions ::
    "(addr \<times> DefenseMissile) list \<Rightarrow> target_store \<Rightarrow>
     (addr \<times> DefenseMissile) list \<times> target_store" where
  "collisions [] h = ([], h)"
| "collisions ((p, missile) # rest) h =
     (if \<not> m_isActive missile
      then (let (rest', h') = collisions rest h in ((p, missile) # rest', h'))
      else (case lock h (m_target missile) of
              None \<Rightarrow> (let (rest', h') = collisions rest h in ((p, missile) # rest', h'))
            | Some (a, targetPtr) \<Rightarrow>
                if \<not> t_isActive targetPtr
                then (let (rest', h') = collisions rest h in ((p, missile) # rest', h'))
                else (let dx = m_x missile - t_x targetPtr;
                          dy = m_y missile - t_y targetPtr
                      in if dx * dx + dy * dy < 225
                         then (let (rest', h') =
                                     collisions rest (h(a \<mapsto> EnemyTarget_setInactive targetPtr))
                               in ((p, DefenseMissile_setInactive missile) # rest', h'))
                         else (let (rest', h') = collisions rest h
                               in ((p, missile) # rest', h')))))"

definition updatePass :: "real \<Rightarrow> world \<Rightarrow> world" where
  "updatePass deltaTime w =
     (let h = updateTargets deltaTime (enemyTargets w) (targets w)
      in w\<lparr>targets := h,
            defenseMissiles := updateMissiles deltaTime h (defenseMissiles w)\<rparr>)"

definition collisionPass :: "world \<Rightarrow> world" where
  "collisionPass w =
     (let (ms, h) = collisions (defenseMissiles w) (targets w)
      in w\<lparr>targets := h, defenseMissiles := ms\<rparr>)"

text \<open>
  The two erase/remove_if calls. An erased target had its slot as only owner and is
  destroyed with it.
\<close>

definition targetAlive :: "target_store \<Rightarrow> addr \<Rightarrow> bool" where
  "targetAlive h a = (case h a of None \<Rightarrow> False | Some t \<Rightarrow> t_isActive t)"

definition compaction :: "world \<Rightarrow> world" where
  "compaction w =
     (let ts = filter (targetAlive (targets w)) (enemyTargets w)
      in w\<lparr>enemyTargets := ts,
            targets := targets w |` set ts,
            defenseMissiles := filter (\<lambda>(p, m). m_isActive m) (defenseMissiles w)\<rparr>)"

definition updateEntities :: "real \<Rightarrow> world \<Rightarrow> world" where
  "updateEntities deltaTime w = compaction (collisionPass (updatePass deltaTime w))"

subsection \<open>Runs\<close>

text \<open>
  What \<^verbatim>\<open>main\<close> does to the world, one operation per event: a spawn, a detection, an
  update of the entities (always with 1/60 in \<^verbatim>\<open>main\<close>), a SPACE key. A run is a list of
  events; it returns the targets it created, in creation order, and the world it ends
  in, or the error that stopped it.
\<close>

datatype event = Spawn nat nat | Detect | Update real | KeySpace

fun step :: "event \<Rightarrow> world \<Rightarrow> error + (EnemyTarget list \<times> world)" where
  "step (Spawn r1 r2) w =
     (case spawnTarget r1 r2 w of Inl e \<Rightarrow> Inl e | Inr (t, w') \<Rightarrow> Inr ([t], w'))"
| "step Detect w = Inr ([], detectionTask w)"
| "step (Update deltaTime) w = Inr ([], updateEntities deltaTime w)"
| "step KeySpace w = Inr ([], keySpace w)"

fun run :: "event list \<Rightarrow> world \<Rightarrow> error + (EnemyTarget list \<times> world)" where
  "run [] w = Inr ([], w)"
| "run (e # es) w =
     (case step e w of
        Inl err \<Rightarrow> Inl err
      | Inr (created, w') \<Rightarrow>
          (case run es w' of
             Inl err \<Rightarrow> Inl err
           | Inr (created', w'') \<Rightarrow> Inr (created @ created', w'')))"

subsection \<open>Notions for the statements\<close>


text \<open>
  Every slot of the target collection holds a live, active target. The compaction
  restores this at the end of every call of \<open>updateEntities\<close>.
\<close>

definition settled :: "world \<Rightarrow> bool" where
  "settled w \<longleftrightarrow> (\<forall>a \<in> set (enemyTargets w). \<exists>t. targets w a = Some t \<and> t_isActive t)"

text \<open>
  The squared distance that the collision loop compares with 225, and what it means
  for a slot of the missile collection to hit the target \<open>t\<close> at address \<open>a\<close>.
\<close>

definition squaredDistance :: "DefenseMissile \<Rightarrow> EnemyTarget \<Rightarrow> real" where
  "squaredDistance m t = (m_x m - t_x t) * (m_x m - t_x t) + (m_y m - t_y t) * (m_y m - t_y t)"


text \<open>One iteration of the collision loop, on the missile and the store.\<close>

definition collide :: "DefenseMissile \<Rightarrow> target_store \<Rightarrow> DefenseMissile \<times> target_store" where
  "collide m h =
     (case lock h (m_target m) of
        None \<Rightarrow> (m, h)
      | Some (a, t) \<Rightarrow>
          if m_isActive m \<and> t_isActive t \<and> squaredDistance m t < 225
          then (DefenseMissile_setInactive m, h(a \<mapsto> EnemyTarget_setInactive t))
          else (m, h))"

text \<open>The events that create a target.\<close>

fun isSpawn :: "event \<Rightarrow> bool" where
  "isSpawn (Spawn r1 r2) = True"
| "isSpawn e = False"

text \<open>
  A missile has lost its target when its weak pointer is empty or expired, or the
  target it points to is inactive.
\<close>

definition targetGone :: "target_store \<Rightarrow> DefenseMissile \<Rightarrow> bool" where
  "targetGone h m =
     (case lock h (m_target m) of None \<Rightarrow> True | Some (a, t) \<Rightarrow> \<not> t_isActive t)"

text \<open>
  The address discipline of the worlds that runs reach: addresses in use lie below
  \<open>nextAddr\<close>, and no two missiles share an address.
\<close>

definition wellAddressed :: "world \<Rightarrow> bool" where
  "wellAddressed w \<longleftrightarrow>
     (\<forall>a \<in> set (enemyTargets w). a < nextAddr w) \<and>
     distinct (map fst (defenseMissiles w)) \<and>
     (\<forall>pm \<in> set (defenseMissiles w).
        fst pm < nextAddr w \<and> (\<forall>a. m_target (snd pm) = Some a \<longrightarrow> a < nextAddr w))"


section \<open>Properties\<close>

subsection \<open>Square roots of the examples\<close>

lemma sqrt_10000: "sqrt 10000 = 100"
  using real_sqrt_abs2 [of 100] by simp




subsection \<open>One update of a missile\<close>

text \<open>
  C1, as the specification states it, fails: with a stationary target at (100, 100), a
  missile at (0, 100) with speed 200, a valid reference to the active target and
  \<open>dt = 1\<close>, the position after one update is not (100, 100).
\<close>

theorem homing_step_counterexample:
  "\<not> (m_x (DefenseMissile_update
             (Map.empty(0 \<mapsto> \<lparr>t_x = 100, t_y = 100, t_speedX = 0, t_speedY = 0,
                                t_isActive = True, t_id = 0\<rparr>))
             \<lparr>m_x = 0, m_y = 100, m_speed = 200, m_velocityX = 0, m_velocityY = 0,
              m_isActive = True, m_target = Some 0\<rparr> 1) = 100 \<and>
        m_y (DefenseMissile_update
             (Map.empty(0 \<mapsto> \<lparr>t_x = 100, t_y = 100, t_speedX = 0, t_speedY = 0,
                                t_isActive = True, t_id = 0\<rparr>))
             \<lparr>m_x = 0, m_y = 100, m_speed = 200, m_velocityX = 0, m_velocityY = 0,
              m_isActive = True, m_target = Some 0\<rparr> 1) = 100)"
  by (simp add: DefenseMissile_update_def updateVelocity_def lock_def Let_def sqrt_10000)

text \<open>
  C1, amended: in that situation the velocity after one update with \<open>dt = 1\<close> is purely
  +x with magnitude exactly the speed, and the missile has moved by velocity times
  \<open>dt\<close>, to (200, 100), beyond the target.
\<close>

theorem homing_step:
  assumes "h a = Some t" and "t_isActive t" and "t_x t = 100" and "t_y t = 100"
    and "m_x m = 0" and "m_y m = 100" and "m_speed m = 200" and "m_target m = Some a"
  shows "m_velocityX (DefenseMissile_update h m 1) = m_speed m \<and>
         m_velocityY (DefenseMissile_update h m 1) = 0 \<and>
         m_x (DefenseMissile_update h m 1) = 200 \<and>
         m_y (DefenseMissile_update h m 1) = 100"
  using assms
  by (simp add: DefenseMissile_update_def updateVelocity_def lock_def Let_def sqrt_10000)

theorem homing_step_witness:
  "DefenseMissile_update
     (Map.empty(0 \<mapsto> \<lparr>t_x = 100, t_y = 100, t_speedX = 0, t_speedY = 0,
                        t_isActive = True, t_id = 0\<rparr>))
     \<lparr>m_x = 0, m_y = 100, m_speed = 200, m_velocityX = 0, m_velocityY = 0,
      m_isActive = True, m_target = Some 0\<rparr> 1 =
   \<lparr>m_x = 200, m_y = 100, m_speed = 200, m_velocityX = 200, m_velocityY = 0,
    m_isActive = True, m_target = Some 0\<rparr>"
  using homing_step
    [of "Map.empty(0 \<mapsto> \<lparr>t_x = 100, t_y = 100, t_speedX = 0, t_speedY = 0,
                           t_isActive = True, t_id = 0\<rparr>)" 0
      "\<lparr>t_x = 100, t_y = 100, t_speedX = 0, t_speedY = 0, t_isActive = True, t_id = 0\<rparr>"
      "\<lparr>m_x = 0, m_y = 100, m_speed = 200, m_velocityX = 0, m_velocityY = 0,
        m_isActive = True, m_target = Some 0\<rparr>"]
  by (simp add: DefenseMissile_update_def updateVelocity_def lock_def Let_def sqrt_10000
      SCREEN_WIDTH_def SCREEN_HEIGHT_def)



text \<open>
  C7: after a missile's update the missile is active exactly when it was active before
  and its new position is inside the field on all four edges; in particular a new
  position left of the field (\<open>x < 0\<close>) deactivates it.
\<close>

theorem missile_update_bounds:
  "m_isActive (DefenseMissile_update h m dt) =
     (m_isActive m \<and>
      \<not> (m_x (DefenseMissile_update h m dt) < 0 \<or>
         m_x (DefenseMissile_update h m dt) > 800 \<or>
         m_y (DefenseMissile_update h m dt) < 0 \<or>
         m_y (DefenseMissile_update h m dt) > 600)) \<and>
   (m_x (DefenseMissile_update h m dt) < 0 \<longrightarrow> \<not> m_isActive (DefenseMissile_update h m dt))"
  by (simp add: DefenseMissile_update_def updateVelocity_def Let_def SCREEN_WIDTH_def
      SCREEN_HEIGHT_def split: option.splits prod.splits)

theorem missile_update_bounds_witness:
  "DefenseMissile_update Map.empty
     \<lparr>m_x = 5, m_y = 300, m_speed = 200, m_velocityX = -200, m_velocityY = 0,
      m_isActive = True, m_target = None\<rparr> (1 / 16) =
     \<lparr>m_x = -7.5, m_y = 300, m_speed = 200, m_velocityX = -200, m_velocityY = 0,
      m_isActive = False, m_target = None\<rparr>"
  using missile_update_bounds [of Map.empty
     "\<lparr>m_x = 5, m_y = 300, m_speed = 200, m_velocityX = -200, m_velocityY = 0,
       m_isActive = True, m_target = None\<rparr>" "1 / 16"]
  by (simp add: DefenseMissile_update_def lock_def Let_def SCREEN_WIDTH_def SCREEN_HEIGHT_def)

subsection \<open>One update of a target\<close>



subsection \<open>Detection and manual fire\<close>






subsection \<open>The collision pass and the compaction\<close>

lemma collisions_Cons:
  "collisions ((p, m) # rest) h =
     ((p, fst (collide m h)) # fst (collisions rest (snd (collide m h))),
      snd (collisions rest (snd (collide m h))))"
  by (simp add: collide_def squaredDistance_def Let_def split: prod.splits option.splits)

lemma collisions_fst: "map fst (fst (collisions ms h)) = map fst ms"
proof (induction ms arbitrary: h)
  case Nil
  show ?case by simp
next
  case (Cons pm ms)
  then show ?case by (cases pm) (simp add: collisions_Cons del: collisions.simps)
qed

lemma collide_inactive_stays:
  "h a = Some t \<Longrightarrow> \<not> t_isActive t \<Longrightarrow> snd (collide m h) a = Some t"
  by (auto simp: collide_def lock_def split: option.splits)







lemma collisionPass_simps:
  "defenseMissiles (collisionPass w) = fst (collisions (defenseMissiles w) (targets w))"
  "targets (collisionPass w) = snd (collisions (defenseMissiles w) (targets w))"
  "enemyTargets (collisionPass w) = enemyTargets w"
  "nextID (collisionPass w) = nextID w"
  "nextAddr (collisionPass w) = nextAddr w"
  by (simp_all add: collisionPass_def split: prod.splits)

lemma updatePass_simps:
  "defenseMissiles (updatePass dt w) =
     updateMissiles dt (updateTargets dt (enemyTargets w) (targets w)) (defenseMissiles w)"
  "targets (updatePass dt w) = updateTargets dt (enemyTargets w) (targets w)"
  "enemyTargets (updatePass dt w) = enemyTargets w"
  "nextID (updatePass dt w) = nextID w"
  "nextAddr (updatePass dt w) = nextAddr w"
  by (simp_all add: updatePass_def Let_def)

lemma compaction_simps:
  "defenseMissiles (compaction w) = filter (\<lambda>(p, m). m_isActive m) (defenseMissiles w)"
  "enemyTargets (compaction w) = filter (targetAlive (targets w)) (enemyTargets w)"
  "targets (compaction w) = targets w |` set (filter (targetAlive (targets w)) (enemyTargets w))"
  "nextID (compaction w) = nextID w"
  "nextAddr (compaction w) = nextAddr w"
  by (simp_all add: compaction_def Let_def)

lemma updateMissiles_fst: "map fst (updateMissiles dt h ms) = map fst ms"
  by (induction ms) (auto simp: updateMissiles_def)





lemmas tick_eval =
  updateEntities_def updatePass_def collisionPass_def compaction_def updateMissiles_def
  DefenseMissile_update_def updateVelocity_def lock_def EnemyTarget_update_def
  EnemyTarget_setInactive_def DefenseMissile_setInactive_def targetAlive_def
  SCREEN_WIDTH_def SCREEN_HEIGHT_def Let_def



subsection \<open>Target ids\<close>

lemma spawnTarget_id:
  assumes "spawnTarget r1 r2 w = Inr (t, w')"
  shows "t_id t = nextID w \<and> nextID w' = nextID w + 1 \<and> nextID w \<noteq> INT_MAX"
  using assms
  by (auto simp: spawnTarget_def EnemyTarget_new_def Let_def split: if_splits)

lemma spawnTarget_defined:
  assumes "nextID w \<noteq> INT_MAX"
  shows "\<exists>t w'. spawnTarget r1 r2 w = Inr (t, w')"
  using assms by (simp add: spawnTarget_def EnemyTarget_new_def Let_def)

lemma launchMissile_nextID: "nextID (launchMissile sx sy a w) = nextID w"
  by (simp add: launchMissile_def Let_def)

lemma detectionLoop_nextID: "nextID (detectionLoop as w) = nextID w"
  by (induction as) (auto simp: Let_def launchMissile_nextID split: option.splits)

lemma keySpace_nextID: "nextID (keySpace w) = nextID w"
  by (simp add: keySpace_def Let_def launchMissile_nextID split: list.splits)

lemma updateEntities_nextID: "nextID (updateEntities dt w) = nextID w"
  by (simp add: updateEntities_def compaction_simps collisionPass_simps updatePass_simps)

lemma step_ids:
  assumes "step e w = Inr (created, w')"
  shows "nextID w' = nextID w + int (length created) \<and>
         (\<forall>t \<in> set created. t_id t = nextID w) \<and>
         length created = (if isSpawn e then 1 else 0)"
proof (cases e)
  case (Spawn r1 r2)
  with assms obtain t where "spawnTarget r1 r2 w = Inr (t, w')" "created = [t]"
    by (auto split: sum.splits)
  with spawnTarget_id [of r1 r2 w t w'] Spawn show ?thesis by simp
next
  case Detect
  with assms show ?thesis by (auto simp: detectionTask_def detectionLoop_nextID)
next
  case (Update dt)
  with assms show ?thesis by (auto simp: updateEntities_nextID)
next
  case KeySpace
  with assms show ?thesis by (auto simp: keySpace_nextID)
qed


lemma run_defined:
  assumes "nextID w + int (length (filter isSpawn evs)) \<le> INT_MAX"
  shows "\<exists>created w'. run evs w = Inr (created, w')"
  using assms
proof (induction evs arbitrary: w)
  case Nil
  then show ?case by simp
next
  case (Cons e evs)
  have "\<exists>c1 w1. step e w = Inr (c1, w1)"
  proof (cases e)
    case (Spawn r1 r2)
    with Cons.prems have "nextID w \<noteq> INT_MAX" by auto
    from spawnTarget_defined [OF this, of r1 r2] Spawn show ?thesis by auto
  qed simp_all
  then obtain c1 w1 where s: "step e w = Inr (c1, w1)" by blast
  from step_ids [OF s] Cons.prems
  have "nextID w1 + int (length (filter isSpawn evs)) \<le> INT_MAX" by (auto split: if_splits)
  from Cons.IH [OF this] s show ?case by auto
qed




subsection \<open>Missiles that have lost their target\<close>

text \<open>The update of the targets neither revives a target nor creates one.\<close>

lemma EnemyTarget_update_inactive:
  "\<not> t_isActive t \<Longrightarrow> \<not> t_isActive (EnemyTarget_update t dt)"
  by (simp add: EnemyTarget_update_def Let_def)

lemma updateTarget_None:
  "h a = None \<Longrightarrow>
   (case h b of None \<Rightarrow> h | Some t \<Rightarrow> h(b \<mapsto> EnemyTarget_update t dt)) a = None"
  by (auto split: option.splits)

lemma updateTarget_inactive:
  "h a = Some t \<Longrightarrow> \<not> t_isActive t \<Longrightarrow>
   \<exists>t'. (case h b of None \<Rightarrow> h | Some t \<Rightarrow> h(b \<mapsto> EnemyTarget_update t dt)) a = Some t' \<and>
        \<not> t_isActive t'"
  by (auto simp: EnemyTarget_update_inactive split: option.splits)

lemma updateTargets_None: "h a = None \<Longrightarrow> updateTargets dt as h a = None"
proof (induction as arbitrary: h)
  case Nil
  then show ?case by simp
next
  case (Cons b as)
  let ?h1 = "case h b of None \<Rightarrow> h | Some t \<Rightarrow> h(b \<mapsto> EnemyTarget_update t dt)"
  have "?h1 a = None" using Cons.prems updateTarget_None [of h a b dt] by blast
  with Cons.IH [of ?h1] show ?case by simp
qed

lemma updateTargets_inactive:
  "h a = Some t \<Longrightarrow> \<not> t_isActive t \<Longrightarrow>
   \<exists>t'. updateTargets dt as h a = Some t' \<and> \<not> t_isActive t'"
proof (induction as arbitrary: h t)
  case Nil
  then show ?case by simp
next
  case (Cons b as)
  let ?h1 = "case h b of None \<Rightarrow> h | Some t \<Rightarrow> h(b \<mapsto> EnemyTarget_update t dt)"
  from Cons.prems updateTarget_inactive [of h a t b dt]
  obtain t1 where "?h1 a = Some t1" "\<not> t_isActive t1" by blast
  with Cons.IH [of ?h1 t1] show ?case by simp
qed

lemma lock_None_iff: "lock h wp = None \<longleftrightarrow> (\<forall>a. wp = Some a \<longrightarrow> h a = None)"
  by (auto simp: lock_def split: option.splits)


lemma targetGone_cases:
  "targetGone h m \<longleftrightarrow>
     (case m_target m of
        None \<Rightarrow> True
      | Some a \<Rightarrow> (case h a of None \<Rightarrow> True | Some t \<Rightarrow> \<not> t_isActive t))"
  by (simp add: targetGone_def lock_def split: option.splits)

lemma updateTargets_targetGone:
  assumes "targetGone h m"
  shows "targetGone (updateTargets dt as h) m"
proof (cases "m_target m")
  case None
  then show ?thesis by (simp add: targetGone_cases)
next
  case (Some a)
  show ?thesis
  proof (cases "h a")
    case None
    with Some show ?thesis by (simp add: targetGone_cases updateTargets_None)
  next
    case (Some t)
    with assms \<open>m_target m = Some a\<close> have "\<not> t_isActive t" by (simp add: targetGone_cases)
    with updateTargets_inactive [of h a t dt as] Some \<open>m_target m = Some a\<close>
    show ?thesis by (auto simp: targetGone_cases)
  qed
qed


lemma DefenseMissile_update_gone:
  assumes "targetGone h m"
  shows "m_velocityX (DefenseMissile_update h m dt) = m_velocityX m \<and>
         m_velocityY (DefenseMissile_update h m dt) = m_velocityY m \<and>
         m_x (DefenseMissile_update h m dt) = m_x m + m_velocityX m * dt \<and>
         m_y (DefenseMissile_update h m dt) = m_y m + m_velocityY m * dt \<and>
         targetGone h (DefenseMissile_update h m dt)"
  using assms
  by (auto simp: DefenseMissile_update_def targetGone_def Let_def lock_def split: option.splits)

lemma DefenseMissile_update_target:
  "m_target (DefenseMissile_update h m dt) = Some a \<Longrightarrow> m_target m = Some a"
  by (auto simp: DefenseMissile_update_def updateVelocity_def Let_def
      split: option.splits prod.splits if_splits)

text \<open>The collision loop leaves such a missile alone.\<close>

lemma collide_gone: "targetGone h m \<Longrightarrow> collide m h = (m, h)"
  by (auto simp: collide_def targetGone_def split: option.splits)

lemma collide_None: "h a = None \<Longrightarrow> snd (collide m h) a = None"
  by (auto simp: collide_def lock_def split: option.splits)

lemma collide_targetGone: "targetGone h m \<Longrightarrow> targetGone (snd (collide m' h)) m"
  by (auto simp: targetGone_cases collide_None collide_inactive_stays split: option.splits)


lemma collide_target: "m_target (fst (collide m h)) = m_target m"
  by (auto simp: collide_def DefenseMissile_setInactive_def split: option.splits)

lemma collisions_gone:
  "map_of ms p = Some m \<Longrightarrow> targetGone h m \<Longrightarrow> map_of (fst (collisions ms h)) p = Some m"
proof (induction ms arbitrary: h)
  case Nil
  then show ?case by simp
next
  case (Cons qm ms)
  obtain q mq where qm: "qm = (q, mq)" by (cases qm)
  show ?case
  proof (cases "q = p")
    case True
    with Cons.prems qm have "mq = m" by simp
    with Cons.prems(2) True show ?thesis
      by (simp add: qm collisions_Cons collide_gone del: collisions.simps)
  next
    case False
    with Cons.prems qm have "map_of ms p = Some m" by simp
    moreover have "targetGone (snd (collide mq h)) m"
      using Cons.prems(2) by (rule collide_targetGone)
    ultimately have "map_of (fst (collisions ms (snd (collide mq h)))) p = Some m"
      by (rule Cons.IH)
    with False show ?thesis
      by (simp add: qm collisions_Cons del: collisions.simps)
  qed
qed

lemma collisions_targetGone: "targetGone h m \<Longrightarrow> targetGone (snd (collisions ms h)) m"
proof (induction ms arbitrary: h)
  case Nil
  then show ?case by simp
next
  case (Cons qm ms)
  obtain q mq where qm: "qm = (q, mq)" by (cases qm)
  from Cons.prems have "targetGone (snd (collide mq h)) m" by (rule collide_targetGone)
  then have "targetGone (snd (collisions ms (snd (collide mq h)))) m" by (rule Cons.IH)
  then show ?case by (simp add: qm collisions_Cons del: collisions.simps)
qed


lemma collisions_targets:
  "(q, m') \<in> set (fst (collisions ms h)) \<Longrightarrow>
   \<exists>m. (q, m) \<in> set ms \<and> m_target m' = m_target m"
proof (induction ms arbitrary: h)
  case Nil
  then show ?case by simp
next
  case (Cons qm ms)
  obtain q0 mq where qm: "qm = (q0, mq)" by (cases qm)
  from Cons.prems have "(q, m') = (q0, fst (collide mq h)) \<or>
      (q, m') \<in> set (fst (collisions ms (snd (collide mq h))))"
    by (simp add: qm collisions_Cons del: collisions.simps)
  then show ?case
  proof
    assume "(q, m') = (q0, fst (collide mq h))"
    then show ?thesis by (auto simp: qm collide_target)
  next
    assume "(q, m') \<in> set (fst (collisions ms (snd (collide mq h))))"
    from Cons.IH [OF this] show ?thesis by auto
  qed
qed

text \<open>The compaction.\<close>

lemma map_of_filter_snd:
  "distinct (map fst xs) \<Longrightarrow>
   map_of (filter (\<lambda>(k, v). P v) xs) k =
     (case map_of xs k of None \<Rightarrow> None | Some v \<Rightarrow> if P v then Some v else None)"
proof (induction xs)
  case Nil
  then show ?case by simp
next
  case (Cons kv xs)
  obtain k' v' where kv: "kv = (k', v')" by (cases kv)
  from Cons.prems kv have notin: "k' \<notin> fst ` set xs" and d: "distinct (map fst xs)" by auto
  show ?case
  proof (cases "k' = k")
    case True
    from notin True have "map_of xs k = None" by (simp add: map_of_eq_None_iff)
    then have "map_of (filter (\<lambda>(k, v). P v) xs) k = None"
      using Cons.IH [OF d] by simp
    with True show ?thesis by (simp add: kv)
  next
    case False
    with Cons.IH [OF d] show ?thesis by (simp add: kv)
  qed
qed


lemma compaction_targetGone:
  "targetGone (targets w) m \<Longrightarrow> targetGone (targets (compaction w)) m"
  by (auto simp: targetGone_cases compaction_simps restrict_map_def targetAlive_def
      split: option.splits)


text \<open>Every event keeps the address discipline.\<close>

lemma wellAddressed_spawnTarget:
  assumes "wellAddressed w" and "spawnTarget r1 r2 w = Inr (t, w')"
  shows "wellAddressed w'"
proof -
  from assms(2) have w': "enemyTargets w' = enemyTargets w @ [nextAddr w]"
    "defenseMissiles w' = defenseMissiles w" "nextAddr w' = Suc (nextAddr w)"
    by (auto simp: spawnTarget_def EnemyTarget_new_def Let_def split: if_splits)
  from assms(1) show ?thesis
    unfolding wellAddressed_def w' by (auto simp: less_Suc_eq)
qed

lemma launchMissile_simps:
  "enemyTargets (launchMissile sx sy a w) = enemyTargets w"
  "targets (launchMissile sx sy a w) = targets w"
  "defenseMissiles (launchMissile sx sy a w) =
     defenseMissiles w @ [(nextAddr w, DefenseMissile_new (targets w) sx sy a 200)]"
  "nextID (launchMissile sx sy a w) = nextID w"
  "nextAddr (launchMissile sx sy a w) = Suc (nextAddr w)"
  by (simp_all add: launchMissile_def Let_def)

lemma DefenseMissile_new_target: "m_target (DefenseMissile_new h sx sy a v) = Some a"
  by (simp add: DefenseMissile_new_def updateVelocity_def Let_def
      split: option.splits prod.splits)

lemma wellAddressed_launchMissile:
  assumes "wellAddressed w" and "a < nextAddr w"
  shows "wellAddressed (launchMissile sx sy a w)"
proof -
  from assms(1) have ts: "\<forall>b \<in> set (enemyTargets w). b < nextAddr w"
    and d: "distinct (map fst (defenseMissiles w))"
    and ms: "\<forall>pm \<in> set (defenseMissiles w).
        fst pm < nextAddr w \<and> (\<forall>b. m_target (snd pm) = Some b \<longrightarrow> b < nextAddr w)"
    by (simp_all add: wellAddressed_def)
  from ms have notin: "nextAddr w \<notin> fst ` set (defenseMissiles w)" by auto
  have "\<forall>b \<in> set (enemyTargets w). b < Suc (nextAddr w)"
    using ts by (simp add: less_Suc_eq)
  moreover have "distinct (map fst (defenseMissiles w) @ [nextAddr w])"
    using d notin by simp
  moreover have "\<forall>pm \<in> set (defenseMissiles w) \<union>
        {(nextAddr w, DefenseMissile_new (targets w) sx sy a 200)}.
      fst pm < Suc (nextAddr w) \<and>
      (\<forall>b. m_target (snd pm) = Some b \<longrightarrow> b < Suc (nextAddr w))"
    using ms assms(2) by (auto simp: DefenseMissile_new_target less_Suc_eq)
  ultimately show ?thesis
    by (simp add: wellAddressed_def launchMissile_simps)
qed

lemma wellAddressed_detectionLoop:
  assumes "wellAddressed w" and "\<forall>a \<in> set as. a < nextAddr w"
  shows "wellAddressed (detectionLoop as w)"
  using assms
proof (induction as)
  case Nil
  then show ?case by simp
next
  case (Cons a as)
  from Cons.prems have a: "a < nextAddr w" and rest: "wellAddressed (detectionLoop as w)"
    using Cons.IH by simp_all
  from Cons.prems(1) a have launch: "wellAddressed (launchMissile SCREEN_WIDTH (SCREEN_HEIGHT / 2) a w)"
    by (rule wellAddressed_launchMissile)
  from rest launch show ?case
    by (simp add: Let_def split: option.splits)
qed

lemma wellAddressed_detectionTask: "wellAddressed w \<Longrightarrow> wellAddressed (detectionTask w)"
  unfolding detectionTask_def by (rule wellAddressed_detectionLoop) (simp_all add: wellAddressed_def)

lemma wellAddressed_keySpace:
  assumes "wellAddressed w"
  shows "wellAddressed (keySpace w)"
proof (cases "enemyTargets w")
  case Nil
  with assms show ?thesis by (simp add: keySpace_def)
next
  case (Cons a rest)
  with assms have "a < nextAddr w" by (simp add: wellAddressed_def)
  with assms have "wellAddressed (launchMissile SCREEN_WIDTH (SCREEN_HEIGHT / 2) a w)"
    by (rule wellAddressed_launchMissile)
  with Cons show ?thesis by (simp add: keySpace_def Let_def)
qed

lemma updateMissiles_targets:
  "(q, m') \<in> set (updateMissiles dt h ms) \<Longrightarrow>
   \<exists>m. (q, m) \<in> set ms \<and> (\<forall>a. m_target m' = Some a \<longrightarrow> m_target m = Some a)"
  by (auto simp: updateMissiles_def dest: DefenseMissile_update_target)

lemma wellAddressed_updateEntities:
  assumes "wellAddressed w"
  shows "wellAddressed (updateEntities dt w)"
proof -
  let ?h1 = "updateTargets dt (enemyTargets w) (targets w)"
  let ?ms1 = "updateMissiles dt ?h1 (defenseMissiles w)"
  let ?ms2 = "fst (collisions ?ms1 ?h1)"
  have ms: "defenseMissiles (updateEntities dt w) = filter (\<lambda>(p, m). m_isActive m) ?ms2"
    by (simp add: updateEntities_def compaction_simps collisionPass_simps updatePass_simps)
  have ts: "set (enemyTargets (updateEntities dt w)) \<subseteq> set (enemyTargets w)"
    by (auto simp: updateEntities_def compaction_simps collisionPass_simps updatePass_simps)
  have na: "nextAddr (updateEntities dt w) = nextAddr w"
    by (simp add: updateEntities_def compaction_simps collisionPass_simps updatePass_simps)
  have fsts: "map fst ?ms2 = map fst (defenseMissiles w)"
    by (simp add: collisions_fst updateMissiles_fst)
  have d: "distinct (map fst (defenseMissiles (updateEntities dt w)))"
  proof -
    from assms have "distinct (map fst ?ms2)" by (simp add: fsts wellAddressed_def)
    then show ?thesis unfolding ms by (rule distinct_map_filter)
  qed
  have each: "fst pm < nextAddr w \<and> (\<forall>a. m_target (snd pm) = Some a \<longrightarrow> a < nextAddr w)"
    if "pm \<in> set (defenseMissiles (updateEntities dt w))" for pm
  proof -
    obtain q m2 where pm: "pm = (q, m2)" by (cases pm)
    from that have "(q, m2) \<in> set ?ms2" by (simp add: ms pm)
    from collisions_targets [OF this]
    obtain m1 where m1: "(q, m1) \<in> set ?ms1" "m_target m2 = m_target m1" by blast
    from updateMissiles_targets [OF m1(1)]
    obtain m where m: "(q, m) \<in> set (defenseMissiles w)"
      "\<forall>a. m_target m1 = Some a \<longrightarrow> m_target m = Some a" by blast
    from assms m(1) have "q < nextAddr w" "\<forall>a. m_target m = Some a \<longrightarrow> a < nextAddr w"
      by (auto simp: wellAddressed_def)
    with m(2) m1(2) show ?thesis by (simp add: pm)
  qed
  have t: "\<forall>a \<in> set (enemyTargets (updateEntities dt w)). a < nextAddr w"
    using assms ts by (auto simp: wellAddressed_def)
  show ?thesis
    unfolding wellAddressed_def na
  proof (intro conjI ballI)
    fix a
    assume "a \<in> set (enemyTargets (updateEntities dt w))"
    with t show "a < nextAddr w" by blast
  next
    show "distinct (map fst (defenseMissiles (updateEntities dt w)))" by (rule d)
  next
    fix pm
    assume "pm \<in> set (defenseMissiles (updateEntities dt w))"
    then show "fst pm < nextAddr w" using each by blast
  next
    fix pm
    assume "pm \<in> set (defenseMissiles (updateEntities dt w))"
    then show "\<forall>a. m_target (snd pm) = Some a \<longrightarrow> a < nextAddr w" using each by blast
  qed
qed

lemma wellAddressed_step:
  assumes "wellAddressed w" and "step e w = Inr (c, w')"
  shows "wellAddressed w'"
proof (cases e)
  case (Spawn r1 r2)
  with assms(2) obtain t where "spawnTarget r1 r2 w = Inr (t, w')"
    by (auto split: sum.splits)
  with assms(1) show ?thesis by (rule wellAddressed_spawnTarget)
next
  case Detect
  with assms(2) have "w' = detectionTask w" by simp
  with assms(1) show ?thesis by (simp add: wellAddressed_detectionTask)
next
  case (Update dt)
  with assms(2) have "w' = updateEntities dt w" by simp
  with assms(1) show ?thesis by (simp add: wellAddressed_updateEntities)
next
  case KeySpace
  with assms(2) have "w' = keySpace w" by simp
  with assms(1) show ?thesis by (simp add: wellAddressed_keySpace)
qed

lemma nextAddr_detectionLoop: "nextAddr w \<le> nextAddr (detectionLoop as w)"
  by (induction as) (simp_all add: Let_def launchMissile_simps split: option.splits)

lemma nextAddr_step:
  assumes "step e w = Inr (c, w')"
  shows "nextAddr w \<le> nextAddr w'"
proof (cases e)
  case (Spawn r1 r2)
  with assms show ?thesis
    by (auto simp: spawnTarget_def EnemyTarget_new_def Let_def split: if_splits)
next
  case Detect
  with assms have "w' = detectionTask w" by simp
  then show ?thesis by (simp add: detectionTask_def nextAddr_detectionLoop)
next
  case (Update dt)
  with assms have "w' = updateEntities dt w" by simp
  then show ?thesis
    by (simp add: updateEntities_def compaction_simps collisionPass_simps updatePass_simps)
next
  case KeySpace
  with assms have "w' = keySpace w" by simp
  then show ?thesis
    by (simp add: keySpace_def launchMissile_simps Let_def split: list.splits)
qed

text \<open>What one event does to a missile.\<close>

lemma launchMissile_map_of:
  assumes "p < nextAddr w"
  shows "map_of (defenseMissiles (launchMissile sx sy a w)) p = map_of (defenseMissiles w) p"
  using assms by (simp add: launchMissile_simps map_add_def split: option.splits)

lemma detectionLoop_cases:
  "detectionLoop as w = w \<or>
   (\<exists>a. detectionLoop as w = launchMissile SCREEN_WIDTH (SCREEN_HEIGHT / 2) a w)"
  by (induction as) (auto simp: Let_def split: option.splits)

lemma keySpace_cases:
  "keySpace w = w \<or> (\<exists>a. keySpace w = launchMissile SCREEN_WIDTH (SCREEN_HEIGHT / 2) a w)"
  by (auto simp: keySpace_def Let_def split: list.splits)

lemma spawnTarget_simps:
  assumes "spawnTarget r1 r2 w = Inr (t, w')"
  shows "defenseMissiles w' = defenseMissiles w"
    and "targets w' = (targets w)(nextAddr w \<mapsto> t)"
    and "nextAddr w' = Suc (nextAddr w)"
  using assms
  by (auto simp: spawnTarget_def EnemyTarget_new_def Let_def split: if_splits)

text \<open>An event other than an update keeps the missiles there are and the targets there are.\<close>

lemma step_keeps:
  assumes "step e w = Inr (c, w')" and "\<forall>dt. e \<noteq> Update dt"
  shows "(\<forall>p < nextAddr w. map_of (defenseMissiles w') p = map_of (defenseMissiles w) p) \<and>
         (\<forall>a < nextAddr w. targets w' a = targets w a)"
proof (cases e)
  case (Spawn r1 r2)
  with assms(1) obtain t where "spawnTarget r1 r2 w = Inr (t, w')"
    by (auto split: sum.splits)
  from spawnTarget_simps [OF this] show ?thesis by simp
next
  case Detect
  with assms(1) have "w' = detectionLoop (enemyTargets w) w" by (simp add: detectionTask_def)
  with detectionLoop_cases [of "enemyTargets w" w]
  have "w' = w \<or> (\<exists>a. w' = launchMissile SCREEN_WIDTH (SCREEN_HEIGHT / 2) a w)" by simp
  then show ?thesis
    by (auto simp: launchMissile_map_of launchMissile_simps(2))
next
  case (Update dt)
  with assms(2) show ?thesis by simp
next
  case KeySpace
  with assms(1) have "w' = keySpace w" by simp
  with keySpace_cases [of w]
  have "w' = w \<or> (\<exists>a. w' = launchMissile SCREEN_WIDTH (SCREEN_HEIGHT / 2) a w)" by simp
  then show ?thesis
    by (auto simp: launchMissile_map_of launchMissile_simps(2))
qed

lemma wellAddressed_present:
  assumes "wellAddressed w" and "map_of (defenseMissiles w) p = Some m"
  shows "p < nextAddr w" and "\<forall>a. m_target m = Some a \<longrightarrow> a < nextAddr w"
proof -
  from assms(2) have "(p, m) \<in> set (defenseMissiles w)" by (rule map_of_SomeD)
  with assms(1) show "p < nextAddr w" and "\<forall>a. m_target m = Some a \<longrightarrow> a < nextAddr w"
    by (auto simp: wellAddressed_def)
qed

lemma same_store_targetGone:
  assumes "\<forall>a. m_target m = Some a \<longrightarrow> h' a = h a"
  shows "targetGone h' m = targetGone h m" and "(lock h' (m_target m) = None) = (lock h (m_target m) = None)"
  using assms by (auto simp: targetGone_cases lock_None_iff split: option.splits)

lemma updateEntities_missile:
  assumes "wellAddressed w" and "map_of (defenseMissiles w) p = Some m" and "targetGone (targets w) m"
  shows "map_of (defenseMissiles (updateEntities dt w)) p =
           (if m_isActive (DefenseMissile_update (updateTargets dt (enemyTargets w) (targets w)) m dt)
            then Some (DefenseMissile_update (updateTargets dt (enemyTargets w) (targets w)) m dt)
            else None)"
    and "targetGone (targets (updateEntities dt w))
           (DefenseMissile_update (updateTargets dt (enemyTargets w) (targets w)) m dt)"
proof -
  let ?h1 = "updateTargets dt (enemyTargets w) (targets w)"
  let ?m1 = "DefenseMissile_update ?h1 m dt"
  let ?ms1 = "updateMissiles dt ?h1 (defenseMissiles w)"
  have gone1: "targetGone ?h1 m" using assms(3) by (rule updateTargets_targetGone)
  then have gone1': "targetGone ?h1 ?m1" by (simp add: DefenseMissile_update_gone)
  have "map_of ?ms1 p = Some ?m1"
    using assms(2) by (simp add: updateMissiles_def map_of_map)
  then have in2: "map_of (fst (collisions ?ms1 ?h1)) p = Some ?m1"
    using gone1' by (rule collisions_gone)
  have d: "distinct (map fst (fst (collisions ?ms1 ?h1)))"
    using assms(1) by (simp add: collisions_fst updateMissiles_fst wellAddressed_def)
  show "map_of (defenseMissiles (updateEntities dt w)) p =
      (if m_isActive ?m1 then Some ?m1 else None)"
    using in2 map_of_filter_snd [OF d, of m_isActive p]
    by (simp add: updateEntities_def compaction_simps collisionPass_simps updatePass_simps)
  have "targetGone (snd (collisions ?ms1 ?h1)) ?m1"
    using gone1' by (rule collisions_targetGone)
  then have "targetGone (targets (collisionPass (updatePass dt w))) ?m1"
    by (simp add: collisionPass_simps updatePass_simps)
  then show "targetGone (targets (updateEntities dt w)) ?m1"
    unfolding updateEntities_def by (rule compaction_targetGone)
qed


lemma updateEntities_absent:
  assumes "map_of (defenseMissiles w) p = None"
  shows "map_of (defenseMissiles (updateEntities dt w)) p = None"
proof -
  from assms have "p \<notin> fst ` set (defenseMissiles w)" by (simp add: map_of_eq_None_iff)
  then have "p \<notin> set (map fst (defenseMissiles w))" by simp
  moreover have "set (map fst (defenseMissiles (updateEntities dt w))) \<subseteq>
      set (map fst (fst (collisions
        (updateMissiles dt (updateTargets dt (enemyTargets w) (targets w)) (defenseMissiles w))
        (updateTargets dt (enemyTargets w) (targets w)))))"
    by (auto simp: updateEntities_def compaction_simps collisionPass_simps updatePass_simps)
  ultimately have "p \<notin> set (map fst (defenseMissiles (updateEntities dt w)))"
    by (auto simp: collisions_fst updateMissiles_fst)
  then show ?thesis by (simp add: map_of_eq_None_iff)
qed

lemma step_absent:
  assumes "p < nextAddr w" and "map_of (defenseMissiles w) p = None"
    and "step e w = Inr (c, w')"
  shows "map_of (defenseMissiles w') p = None"
proof (cases "\<exists>dt. e = Update dt")
  case True
  then obtain dt where "e = Update dt" by blast
  with assms(3) have "w' = updateEntities dt w" by simp
  with assms(2) show ?thesis by (simp add: updateEntities_absent)
next
  case False
  then have "\<forall>dt. e \<noteq> Update dt" by blast
  from step_keeps [OF assms(3) this] assms(1,2) show ?thesis by simp
qed

lemma run_absent:
  assumes "p < nextAddr w" and "map_of (defenseMissiles w) p = None"
    and "run evs w = Inr (c, w')"
  shows "map_of (defenseMissiles w') p = None"
  using assms
proof (induction evs arbitrary: w c)
  case Nil
  then show ?case by simp
next
  case (Cons e evs)
  from Cons.prems(3) obtain c1 w1 c2 where
    s: "step e w = Inr (c1, w1)" and r: "run evs w1 = Inr (c2, w')"
    by (auto split: sum.splits)
  from Cons.prems(1) nextAddr_step [OF s] have "p < nextAddr w1" by simp
  moreover from Cons.prems(1,2) s have "map_of (defenseMissiles w1) p = None"
    by (rule step_absent)
  ultimately show ?case using r by (rule Cons.IH)
qed

text \<open>One event and a missile whose target is gone.\<close>

lemma step_gone:
  assumes "wellAddressed w" and "step e w = Inr (c, w1)"
    and "map_of (defenseMissiles w) p = Some m" and "targetGone (targets w) m"
    and "map_of (defenseMissiles w1) p = Some m1"
  shows "m_velocityX m1 = m_velocityX m \<and> m_velocityY m1 = m_velocityY m \<and>
         targetGone (targets w1) m1"
proof (cases "\<exists>dt. e = Update dt")
  case True
  then obtain dt where "e = Update dt" by blast
  with assms(2) have w1: "w1 = updateEntities dt w" by simp
  let ?m1 = "DefenseMissile_update (updateTargets dt (enemyTargets w) (targets w)) m dt"
  from updateEntities_missile(1) [OF assms(1,3,4), of dt] assms(5)
  have "m1 = ?m1" by (simp add: w1 split: if_splits)
  moreover have "targetGone (updateTargets dt (enemyTargets w) (targets w)) m"
    using assms(4) by (rule updateTargets_targetGone)
  ultimately show ?thesis
    using updateEntities_missile(2) [OF assms(1,3,4), of dt]
    by (simp add: w1 DefenseMissile_update_gone)
next
  case False
  then have "\<forall>dt. e \<noteq> Update dt" by blast
  note keeps = step_keeps [OF assms(2) this]
  note pres = wellAddressed_present [OF assms(1,3)]
  from keeps pres(1) assms(3,5) have "m1 = m" by simp
  moreover from keeps pres(2) have "\<forall>a. m_target m = Some a \<longrightarrow> targets w1 a = targets w a"
    by simp
  then have "targetGone (targets w1) m = targetGone (targets w) m"
    by (rule same_store_targetGone)
  ultimately show ?thesis using assms(4) by simp
qed

text \<open>
  C4: take a world of a run and a missile in it whose target reference is invalid
  (empty or expired) or whose target is inactive. Whatever events follow, as long as
  the missile is in the collection its velocity is the one it had, and its target is
  still gone: no later update recomputes the velocity, and the missile never gets a
  target again.
\<close>

theorem lost_missile_keeps_velocity:
  assumes "wellAddressed w" and "run evs w = Inr (created, w')"
    and "map_of (defenseMissiles w) p = Some m" and "targetGone (targets w) m"
    and "map_of (defenseMissiles w') p = Some m'"
  shows "m_velocityX m' = m_velocityX m \<and> m_velocityY m' = m_velocityY m \<and>
         targetGone (targets w') m'"
  using assms
proof (induction evs arbitrary: w m created)
  case Nil
  then show ?case by simp
next
  case (Cons e evs)
  from Cons.prems(2) obtain c1 w1 c2 where
    s: "step e w = Inr (c1, w1)" and r: "run evs w1 = Inr (c2, w')"
    by (auto split: sum.splits)
  have wa1: "wellAddressed w1" using Cons.prems(1) s by (rule wellAddressed_step)
  have p: "p < nextAddr w1"
    using wellAddressed_present(1) [OF Cons.prems(1,3)] nextAddr_step [OF s] by simp
  show ?case
  proof (cases "map_of (defenseMissiles w1) p")
    case None
    with p have "map_of (defenseMissiles w') p = None" using r by (rule run_absent)
    with Cons.prems(5) show ?thesis by simp
  next
    case (Some m1)
    from step_gone [OF Cons.prems(1) s Cons.prems(3,4) Some]
    have v: "m_velocityX m1 = m_velocityX m" "m_velocityY m1 = m_velocityY m"
      and g: "targetGone (targets w1) m1" by simp_all
    from Cons.IH [OF wa1 r Some g Cons.prems(5)] v show ?thesis by simp
  qed
qed








theorem lost_missile_keeps_velocity_witness:
  "let w0 = \<lparr>enemyTargets = [0],
             targets = Map.empty(0 \<mapsto> \<lparr>t_x = 790, t_y = 300, t_speedX = 60, t_speedY = 0,
                                          t_isActive = False, t_id = 0\<rparr>),
             defenseMissiles =
               [(1, \<lparr>m_x = 400, m_y = 300, m_speed = 200, m_velocityX = 200, m_velocityY = 0,
                     m_isActive = True, m_target = Some 0\<rparr>)],
             nextID = 1, nextAddr = 2\<rparr>;
       m0 = \<lparr>m_x = 400, m_y = 300, m_speed = 200, m_velocityX = 200, m_velocityY = 0,
             m_isActive = True, m_target = Some 0\<rparr>;
       m2 = \<lparr>m_x = 412.5, m_y = 300, m_speed = 200, m_velocityX = 200, m_velocityY = 0,
             m_isActive = True, m_target = None\<rparr>
   in wellAddressed w0 \<and> map_of (defenseMissiles w0) 1 = Some m0 \<and> targetGone (targets w0) m0 \<and>
      (case run [Update (1 / 32), Spawn 17 3, Update (1 / 32)] w0 of
         Inl e \<Rightarrow> None
       | Inr (created, w') \<Rightarrow> map_of (defenseMissiles w') 1) = Some m2 \<and>
      m_velocityX m2 = m_velocityX m0 \<and> m_velocityY m2 = m_velocityY m0"
proof -
  define m0 where "m0 = \<lparr>m_x = 400, m_y = 300, m_speed = 200, m_velocityX = 200,
             m_velocityY = 0, m_isActive = True, m_target = Some (0::nat)\<rparr>"
  define w0 where "w0 = \<lparr>enemyTargets = [0],
             targets = Map.empty(0 \<mapsto> \<lparr>t_x = 790, t_y = 300, t_speedX = 60, t_speedY = 0,
                                          t_isActive = False, t_id = 0\<rparr>),
             defenseMissiles = [(1, m0)], nextID = 1, nextAddr = 2\<rparr>"
  define m2 where "m2 = \<lparr>m_x = 412.5, m_y = 300, m_speed = 200, m_velocityX = 200,
             m_velocityY = 0, m_isActive = True, m_target = None :: nat option\<rparr>"
  have wa0: "wellAddressed w0" by (simp add: wellAddressed_def w0_def m0_def)
  have present: "map_of (defenseMissiles w0) 1 = Some m0" by (simp add: w0_def)
  have gone: "targetGone (targets w0) m0" by (simp add: w0_def m0_def targetGone_def lock_def)
  have ev: "(case run [Update (1 / 32), Spawn 17 3, Update (1 / 32)] w0 of
         Inl e \<Rightarrow> None
       | Inr (created, w') \<Rightarrow> map_of (defenseMissiles w') 1) = Some m2"
    by (simp add: w0_def m0_def m2_def spawnTarget_def EnemyTarget_new_def INT_MAX_def tick_eval)
  have "\<exists>c w'. run [Update (1 / 32), Spawn 17 3, Update (1 / 32)] w0 = Inr (c, w')"
    by (rule run_defined) (simp add: w0_def INT_MAX_def)
  then obtain c1 w1 where r1: "run [Update (1 / 32), Spawn 17 3, Update (1 / 32)] w0 = Inr (c1, w1)"
    by blast
  with ev have after: "map_of (defenseMissiles w1) 1 = Some m2" by simp
  from lost_missile_keeps_velocity [OF wa0 r1 present gone after]
  have "m_velocityX m2 = m_velocityX m0 \<and> m_velocityY m2 = m_velocityY m0" by simp
  with wa0 present gone ev show ?thesis
    unfolding Let_def m0_def [symmetric] m2_def [symmetric] w0_def [symmetric] by simp
qed

subsection \<open>The worlds of a run\<close>

text \<open>
  The two conditions on worlds that the theorems above assume hold in the initial world
  and after every event, hence in every world a run reaches.
\<close>

lemma wellAddressed_initial: "wellAddressed initial"
  by (simp add: wellAddressed_def initial_def)

lemma run_wellAddressed:
  assumes "wellAddressed w" and "run evs w = Inr (created, w')"
  shows "wellAddressed w'"
  using assms
proof (induction evs arbitrary: w created)
  case Nil
  then show ?case by simp
next
  case (Cons e evs)
  from Cons.prems(2) obtain c1 w1 c2 where
    s: "step e w = Inr (c1, w1)" and r: "run evs w1 = Inr (c2, w')"
    by (auto split: sum.splits)
  from Cons.prems(1) s have "wellAddressed w1" by (rule wellAddressed_step)
  then show ?case using r by (rule Cons.IH)
qed

lemma settled_initial: "settled initial"
  by (simp add: settled_def initial_def)

lemma settled_spawnTarget:
  assumes "settled w" and "spawnTarget r1 r2 w = Inr (t, w')"
  shows "settled w'"
proof -
  from assms(2) have w': "enemyTargets w' = enemyTargets w @ [nextAddr w]"
    "targets w' = (targets w)(nextAddr w \<mapsto> t)" and t: "t_isActive t"
    by (auto simp: spawnTarget_def EnemyTarget_new_def Let_def split: if_splits)
  from assms(1) t show ?thesis
    unfolding settled_def w' by auto
qed

lemma settled_launchMissile: "settled w \<Longrightarrow> settled (launchMissile sx sy a w)"
  by (simp add: settled_def launchMissile_simps)

lemma settled_updateEntities: "settled (updateEntities dt w)"
  unfolding settled_def updateEntities_def compaction_simps
  by (auto simp: targetAlive_def restrict_map_def split: option.splits)

lemma settled_step:
  assumes "settled w" and "step e w = Inr (c, w')"
  shows "settled w'"
proof (cases e)
  case (Spawn r1 r2)
  with assms(2) obtain t where "spawnTarget r1 r2 w = Inr (t, w')"
    by (auto split: sum.splits)
  with assms(1) show ?thesis by (rule settled_spawnTarget)
next
  case Detect
  with assms(2) have "w' = detectionLoop (enemyTargets w) w" by (simp add: detectionTask_def)
  with detectionLoop_cases [of "enemyTargets w" w] assms(1) show ?thesis
    by (auto simp: settled_launchMissile)
next
  case (Update dt)
  with assms(2) have "w' = updateEntities dt w" by simp
  then show ?thesis by (simp add: settled_updateEntities)
next
  case KeySpace
  with assms(2) have "w' = keySpace w" by simp
  with keySpace_cases [of w] assms(1) show ?thesis
    by (auto simp: settled_launchMissile)
qed

lemma run_settled:
  assumes "settled w" and "run evs w = Inr (created, w')"
  shows "settled w'"
  using assms
proof (induction evs arbitrary: w created)
  case Nil
  then show ?case by simp
next
  case (Cons e evs)
  from Cons.prems(2) obtain c1 w1 c2 where
    s: "step e w = Inr (c1, w1)" and r: "run evs w1 = Inr (c2, w')"
    by (auto split: sum.splits)
  from Cons.prems(1) s have "settled w1" by (rule settled_step)
  then show ?case using r by (rule Cons.IH)
qed
end
